theory Spec2Isabelle
  imports Complex_Main "HOL-Library.Word"
begin

section \<open>Numbers\<close>

text \<open>
  A JavaScript number is a binary64 value. In the capture pipeline, where a rounded
  quotient is floored and a rounded energy is compared with a rounded threshold, a number
  is modelled as a real (a finite value) or NaN, and every arithmetic operation rounds the
  exact result to the nearest value with a 53-bit significand, ties to even (\<open>b64\<close>).
  Overflow, subnormal results and the infinities are not modelled: what the pipeline
  computes from finite samples, sample rates and millisecond clocks stays in the normal
  range. \<^verbatim>\<open>Math.sqrt\<close> is taken to be the correctly rounded IEEE operation, as the engines
  implement it.

  The elements of a \<^verbatim>\<open>Float32Array\<close> filled by the capture device are finite float32
  values, modelled as reals; the PCM16 scaling (a 24-bit significand times \<open>32768\<close> or
  \<open>32767\<close>) and the decoding \<open>y / 32768\<close> are exact on them. \<^verbatim>\<open>Int16Array\<close> elements are
  \<^typ>\<open>16 word\<close>, read with \<^const>\<open>sint\<close>. The times of the playback path are reals.
\<close>

type_synonym float32 = real
type_synonym int16 = "16 word"
type_synonym number = "real option"

abbreviation NaN :: number where
  "NaN \<equiv> None"

text \<open>Rounding to the nearest integer, ties to even.\<close>

definition round_even :: "real \<Rightarrow> int" where
  "round_even r =
     (let f = \<lfloor>r\<rfloor>; d = r - of_int f
      in if d < 1 / 2 then f else if 1 / 2 < d then f + 1 else if even f then f else f + 1)"

text \<open>
  Rounding to binary64: with \<open>2 ^ L \<le> \<bar>x\<bar> < 2 ^ (L + 1)\<close> the significand \<open>x / 2 ^ (L - 52)\<close>
  is rounded to an integer.
\<close>

definition b64 :: "real \<Rightarrow> real" where
  "b64 x =
     (if x = 0 then 0
      else (let e = \<lfloor>log 2 \<bar>x\<bar>\<rfloor> - 52
            in of_int (round_even (x / 2 powi e)) * 2 powi e))"

text \<open>
  The operators of the source on numbers. An operand that is NaN makes the result NaN and
  every comparison false. \<open>0 / 0\<close> is NaN; a non-zero numerator over zero (an infinity) does
  not occur: the one divisor that can be zero is the length of an empty buffer, whose
  energy sum is zero.
\<close>

fun js_add :: "number \<Rightarrow> number \<Rightarrow> number" where
  "js_add (Some x) (Some y) = Some (b64 (x + y))"
| "js_add _ _ = NaN"

fun js_mul :: "number \<Rightarrow> number \<Rightarrow> number" where
  "js_mul (Some x) (Some y) = Some (b64 (x * y))"
| "js_mul _ _ = NaN"

fun js_div :: "number \<Rightarrow> number \<Rightarrow> number" where
  "js_div (Some x) (Some y) = (if y = 0 then NaN else Some (b64 (x / y)))"
| "js_div _ _ = NaN"

fun js_sqrt :: "number \<Rightarrow> number" where
  "js_sqrt (Some x) = (if x < 0 then NaN else Some (b64 (sqrt x)))"
| "js_sqrt None = NaN"

fun js_max :: "number \<Rightarrow> number \<Rightarrow> number" where
  "js_max (Some x) (Some y) = Some (max x y)"
| "js_max _ _ = NaN"

fun js_min :: "number \<Rightarrow> number \<Rightarrow> number" where
  "js_min (Some x) (Some y) = Some (min x y)"
| "js_min _ _ = NaN"

fun js_ge :: "number \<Rightarrow> number \<Rightarrow> bool" where
  "js_ge (Some x) (Some y) = (y \<le> x)"
| "js_ge _ _ = False"

section \<open>Capture pipeline: \<^verbatim>\<open>startStreamingMic\<close> (src/app/utils/audioUtils.ts)\<close>

subsection \<open>Downsampling to 16 kHz\<close>

definition targetSampleRate :: real where
  "targetSampleRate = 16000"

text \<open>
  \<^verbatim>\<open>input[k]\<close> on a typed array: an index outside the array reads \<^verbatim>\<open>undefined\<close>, which
  the assignment into the \<^verbatim>\<open>Float32Array\<close> stores as NaN.
\<close>

definition typed_read :: "float32 list \<Rightarrow> int \<Rightarrow> number" where
  "typed_read input k =
     (if 0 \<le> k \<and> nat k < length input then Some (input ! nat k) else NaN)"

text \<open>
  \<^verbatim>\<open>
  const ratio = audioContext.sampleRate / targetSampleRate;
  const newLength = Math.floor(input.length / ratio);
  const downsampled = new Float32Array(newLength);
  for (let i = 0; i < newLength; i++) downsampled[i] = input[Math.floor(i * ratio)];
  \<close>
  The sample rate of an audio context is positive, so \<open>newLength\<close> is never negative.
\<close>

definition ratio_of :: "real \<Rightarrow> real" where
  "ratio_of sampleRate = b64 (sampleRate / targetSampleRate)"

definition newLength :: "real \<Rightarrow> float32 list \<Rightarrow> nat" where
  "newLength ratio input = nat \<lfloor>b64 (real (length input) / ratio)\<rfloor>"

definition downsample :: "real \<Rightarrow> float32 list \<Rightarrow> number list" where
  "downsample ratio input =
     map (\<lambda>i. typed_read input \<lfloor>b64 (real i * ratio)\<rfloor>) [0..<newLength ratio input]"

subsection \<open>RMS energy\<close>

text \<open>
  \<^verbatim>\<open>
  let energySum = 0;
  for (let i = 0; i < downsampled.length; i++) energySum += downsampled[i] * downsampled[i];
  const rms = Math.sqrt(energySum / downsampled.length);
  \<close>
  On an empty buffer this is \<open>0 / 0\<close>, NaN.
\<close>

definition energySum :: "number list \<Rightarrow> number" where
  "energySum downsampled = foldl (\<lambda>acc x. js_add acc (js_mul x x)) (Some 0) downsampled"

definition rms_of :: "number list \<Rightarrow> number" where
  "rms_of downsampled =
     js_sqrt (js_div (energySum downsampled) (Some (real (length downsampled))))"

subsection \<open>Float32 to PCM16\<close>

text \<open>
  Storing a number into an \<^verbatim>\<open>Int16Array\<close> applies ToInt16: truncate towards zero, then
  reduce modulo \<open>2^16\<close>.
\<close>

definition js_trunc :: "real \<Rightarrow> int" where
  "js_trunc r = (if r < 0 then \<lceil>r\<rceil> else \<lfloor>r\<rfloor>)"

definition to_int16 :: "real \<Rightarrow> int16" where
  "to_int16 r = word_of_int (js_trunc r)"

text \<open>
  \<^verbatim>\<open>
  const s = Math.max(-1, Math.min(1, downsampled[i]));
  pcm16[i] = s < 0 ? s * 0x8000 : s * 0x7fff;
  \<close>
\<close>

definition float_to_pcm16 :: "float32 \<Rightarrow> int16" where
  "float_to_pcm16 x =
     (let s = max (- 1) (min 1 x)
      in to_int16 (if s < 0 then s * 32768 else s * 32767))"

text \<open>
  The same two lines on an element of \<open>downsampled\<close>: for NaN the clamp is NaN, the test
  \<open>s < 0\<close> is false, the product is NaN, and the store writes \<open>0\<close>.
\<close>

fun sample_to_pcm16 :: "number \<Rightarrow> int16" where
  "sample_to_pcm16 (Some x) = float_to_pcm16 x"
| "sample_to_pcm16 None = 0"

subsection \<open>20 ms frame chunking\<close>

definition FRAME_SIZE :: nat where
  "FRAME_SIZE = 320"

text \<open>
  \<^verbatim>\<open>
  for (let i = 0; i < pcm16.length; i += FRAME_SIZE) {
    const frame = pcm16.slice(i, i + FRAME_SIZE);
    if (frame.length === FRAME_SIZE) { ws.send(frame.buffer); framesSent++; }
  }
  \<close>
  \<open>frames_from i pcm16\<close> is the list of frames sent from loop index \<open>i\<close> on.
\<close>

function frames_from :: "nat \<Rightarrow> int16 list \<Rightarrow> int16 list list" where
  "frames_from i pcm16 =
     (if i < length pcm16
      then (let frame = take FRAME_SIZE (drop i pcm16)
            in (if length frame = FRAME_SIZE then [frame] else [])
               @ frames_from (i + FRAME_SIZE) pcm16)
      else [])"
  by pat_completeness auto
termination
  by (relation "measure (\<lambda>(i, pcm16). length pcm16 - i)") (auto simp: FRAME_SIZE_def)

declare frames_from.simps [simp del]

subsection \<open>The closure of \<^verbatim>\<open>startStreamingMic\<close>\<close>

text \<open>
  \<^verbatim>\<open>StreamingMicOptions\<close>: every field is optional. A callback is modelled by whether it
  was supplied (\<^verbatim>\<open>typeof cb === "function"\<close>); calling it is an effect.
\<close>

record StreamingMicOptions =
  opt_energyThreshold :: "real option"
  opt_silenceMs :: "real option"
  opt_onSpeechStart :: bool
  opt_onSpeechEnd :: bool

text \<open>
  What the closure captures: the destructured options (the literal \<^verbatim>\<open>0.01\<close> of the source
  is the binary64 value nearest to \<open>1/100\<close>), the context's rate, the start time.
\<close>

record mic_env =
  energyThreshold :: real
  silenceMs :: real
  onSpeechStart :: bool
  onSpeechEnd :: bool
  onAudioLevel :: bool
  sampleRate :: real
  streamStartTime :: real

definition mic_env_of :: "bool \<Rightarrow> StreamingMicOptions \<Rightarrow> real \<Rightarrow> real \<Rightarrow> mic_env" where
  "mic_env_of hasOnAudioLevel options rate startTime =
     \<lparr> energyThreshold = (case opt_energyThreshold options of None \<Rightarrow> b64 0.01 | Some v \<Rightarrow> v),
       silenceMs = (case opt_silenceMs options of None \<Rightarrow> 600 | Some v \<Rightarrow> v),
       onSpeechStart = opt_onSpeechStart options,
       onSpeechEnd = opt_onSpeechEnd options,
       onAudioLevel = hasOnAudioLevel,
       sampleRate = rate,
       streamStartTime = startTime \<rparr>"

definition default_options :: StreamingMicOptions where
  "default_options =
     \<lparr> opt_energyThreshold = None, opt_silenceMs = None,
       opt_onSpeechStart = False, opt_onSpeechEnd = False \<rparr>"

text \<open>The mutable variables of the closure (\<^verbatim>\<open>let framesSent = 0; ...\<close>).\<close>

record mic_state =
  framesSent :: nat
  isSpeaking :: bool
  lastSpeechTs :: real
  noiseSum :: number
  noiseCount :: nat

definition mic_init :: mic_state where
  "mic_init =
     \<lparr> framesSent = 0, isSpeaking = False, lastSpeechTs = 0, noiseSum = Some 0, noiseCount = 0 \<rparr>"

definition calibrationMs :: real where
  "calibrationMs = 500"

text \<open>
  The two control messages, on the wire \<^verbatim>\<open>{"type":"speech_start"}\<close> and
  \<^verbatim>\<open>{"type":"speech_end"}\<close>.
\<close>

datatype vad_edge = speech_start | speech_end

text \<open>Everything a tick or \<^verbatim>\<open>stop()\<close> does to the outside, in program order.\<close>

datatype effect =
    WsSendJson vad_edge
  | WsSendBinary "int16 list"
  | CallOnSpeechStart
  | CallOnSpeechEnd
  | CallOnAudioLevel number
  | ProcessorDisconnect
  | SourceDisconnect
  | TracksStop
  | AudioContextClose

text \<open>
  One \<^verbatim>\<open>AudioProcessingEvent\<close>: the socket's state when the handler runs, channel 0 of
  the input buffer, and the two readings of \<^verbatim>\<open>performance.now()\<close> the handler takes.
\<close>

record audio_event =
  wsOpen :: bool
  inputBuffer :: "float32 list"
  perfNow1 :: real
  perfNow2 :: real

text \<open>
  \<^verbatim>\<open>
  const elapsed = performance.now() - streamStartTime;
  if (elapsed < calibrationMs) { noiseSum += rms; noiseCount += 1; }
  \<close>
\<close>

definition calibrate :: "mic_env \<Rightarrow> real \<Rightarrow> number \<Rightarrow> mic_state \<Rightarrow> mic_state" where
  "calibrate env t1 rms s =
     (let elapsed = b64 (t1 - streamStartTime env)
      in if elapsed < calibrationMs
         then s\<lparr>noiseSum := js_add (noiseSum s) rms, noiseCount := noiseCount s + 1\<rparr>
         else s)"

text \<open>
  \<^verbatim>\<open>
  let threshold = energyThreshold;
  if (noiseCount > 0) {
    const estNoise = noiseSum / noiseCount;
    threshold = Math.max(energyThreshold, estNoise * 3.0);
  }
  \<close>
\<close>

definition estNoise :: "mic_state \<Rightarrow> number" where
  "estNoise s = js_div (noiseSum s) (Some (real (noiseCount s)))"

definition threshold_of :: "mic_env \<Rightarrow> mic_state \<Rightarrow> number" where
  "threshold_of env s =
     (if noiseCount s > 0
      then js_max (Some (energyThreshold env)) (js_mul (estNoise s) (Some 3.0))
      else Some (energyThreshold env))"

text \<open>
  \<^verbatim>\<open>
  if (rms >= threshold) {
    lastSpeechTs = now;
    if (!isSpeaking) { isSpeaking = true; ws.send(speech_start); onSpeechStart?.(); }
  } else if (isSpeaking) {
    const silenceElapsed = now - lastSpeechTs;
    if (silenceElapsed >= silenceMs) { isSpeaking = false; ws.send(speech_end); onSpeechEnd?.(); }
  }
  \<close>
\<close>

definition vad_decision ::
  "mic_env \<Rightarrow> number \<Rightarrow> number \<Rightarrow> real \<Rightarrow> mic_state \<Rightarrow> mic_state \<times> effect list" where
  "vad_decision env rms threshold now s =
     (if js_ge rms threshold
      then (let s1 = s\<lparr>lastSpeechTs := now\<rparr>
            in if \<not> isSpeaking s1
               then (s1\<lparr>isSpeaking := True\<rparr>,
                     WsSendJson speech_start # (if onSpeechStart env then [CallOnSpeechStart] else []))
               else (s1, []))
      else if isSpeaking s
      then (let silenceElapsed = b64 (now - lastSpeechTs s)
            in if silenceElapsed \<ge> silenceMs env
               then (s\<lparr>isSpeaking := False\<rparr>,
                     WsSendJson speech_end # (if onSpeechEnd env then [CallOnSpeechEnd] else []))
               else (s, []))
      else (s, []))"

text \<open>
  \<^verbatim>\<open>processor.onaudioprocess\<close>: the first statement returns when the socket is not OPEN.
\<close>

definition onaudioprocess :: "mic_env \<Rightarrow> mic_state \<Rightarrow> audio_event \<Rightarrow> mic_state \<times> effect list" where
  "onaudioprocess env s ev =
     (if \<not> wsOpen ev then (s, [])
      else
        let input = inputBuffer ev;
            ratio = ratio_of (sampleRate env);
            downsampled = downsample ratio input;
            rms = rms_of downsampled;
            s1 = calibrate env (perfNow1 ev) rms s;
            threshold = threshold_of env s1;
            now = perfNow2 ev;
            (s2, vad) = vad_decision env rms threshold now s1;
            pcm16 = map sample_to_pcm16 downsampled;
            sent = frames_from 0 pcm16;
            s3 = s2\<lparr>framesSent := framesSent s2 + length sent\<rparr>
        in (s3, vad @ map WsSendBinary sent
                @ (if onAudioLevel env then [CallOnAudioLevel (js_min (js_mul rms (Some 8)) (Some 1))] else [])))"

text \<open>
  \<^verbatim>\<open>
  stop: () => {
    if (isSpeaking && ws.readyState === WebSocket.OPEN) { ws.send(speech_end); onSpeechEnd?.(); }
    processor.disconnect(); source.disconnect();
    stream.getTracks().forEach((t) => t.stop()); audioContext.close();
  }
  \<close>
  \<open>stop\<close> assigns to none of the closure's variables.
\<close>

definition stop :: "mic_env \<Rightarrow> mic_state \<Rightarrow> bool \<Rightarrow> mic_state \<times> effect list" where
  "stop env s readyStateOpen =
     (s, (if isSpeaking s \<and> readyStateOpen
          then WsSendJson speech_end # (if onSpeechEnd env then [CallOnSpeechEnd] else [])
          else [])
         @ [ProcessorDisconnect, SourceDisconnect, TracksStop, AudioContextClose])"

text \<open>A session of the microphone: audio callbacks and calls of \<^verbatim>\<open>stop()\<close>, in order.\<close>

datatype mic_call = Tick audio_event | Stop bool

fun mic_step :: "mic_env \<Rightarrow> mic_state \<Rightarrow> mic_call \<Rightarrow> mic_state \<times> effect list" where
  "mic_step env s (Tick ev) = onaudioprocess env s ev"
| "mic_step env s (Stop readyStateOpen) = stop env s readyStateOpen"

fun mic_run :: "mic_env \<Rightarrow> mic_state \<Rightarrow> mic_call list \<Rightarrow> mic_state \<times> effect list" where
  "mic_run env s [] = (s, [])"
| "mic_run env s (c # cs) =
     (let (s1, out1) = mic_step env s c;
          (s2, out2) = mic_run env s1 cs
      in (s2, out1 @ out2))"

text \<open>The observations the properties below are about.\<close>

fun frames_of :: "effect list \<Rightarrow> int16 list list" where
  "frames_of [] = []"
| "frames_of (WsSendBinary f # es) = f # frames_of es"
| "frames_of (_ # es) = frames_of es"

fun edges_of :: "effect list \<Rightarrow> vad_edge list" where
  "edges_of [] = []"
| "edges_of (WsSendJson e # es) = e # edges_of es"
| "edges_of (_ # es) = edges_of es"

text \<open>The byte length of a binary message: two bytes per sample.\<close>

definition byteLength :: "int16 list \<Rightarrow> nat" where
  "byteLength frame = 2 * length frame"

text \<open>Names for the intermediate values of one tick.\<close>

definition tick_downsampled :: "mic_env \<Rightarrow> audio_event \<Rightarrow> number list" where
  "tick_downsampled env ev = downsample (ratio_of (sampleRate env)) (inputBuffer ev)"

definition tick_rms :: "mic_env \<Rightarrow> audio_event \<Rightarrow> number" where
  "tick_rms env ev = rms_of (tick_downsampled env ev)"

definition pcm16_of :: "mic_env \<Rightarrow> audio_event \<Rightarrow> int16 list" where
  "pcm16_of env ev =
     map sample_to_pcm16 (downsample (ratio_of (sampleRate env)) (inputBuffer ev))"

text \<open>No two consecutive edges are equal.\<close>

fun alternating :: "vad_edge list \<Rightarrow> bool" where
  "alternating (a # b # es) = (a \<noteq> b \<and> alternating (b # es))"
| "alternating _ = True"

section \<open>Playback and session coordination: \<^verbatim>\<open>Home\<close> (src/app/page.tsx)\<close>

subsection \<open>Decoding an inbound chunk\<close>

text \<open>\<^verbatim>\<open>float32[i] = int16[i] / 32768\<close> in \<^verbatim>\<open>processBinaryChunk\<close>.\<close>

definition int16_to_float :: "int16 \<Rightarrow> float32" where
  "int16_to_float y = real_of_int (sint y) / 32768"

subsection \<open>Inbound binary messages\<close>

datatype js_error = RangeError | NotSupportedError

text \<open>
  \<^verbatim>\<open>new Int16Array(arrayBuffer)\<close>: a view of the bytes, two per element, low byte first
  (every platform a browser runs on is little-endian); it throws a \<^verbatim>\<open>RangeError\<close> when
  the byte length is odd.
\<close>

fun int16_pairs :: "8 word list \<Rightarrow> int16 list" where
  "int16_pairs (lo # hi # rest) = word_cat hi lo # int16_pairs rest"
| "int16_pairs _ = []"

definition Int16Array_of :: "8 word list \<Rightarrow> js_error + int16 list" where
  "Int16Array_of arrayBuffer =
     (if odd (length arrayBuffer) then Inl RangeError else Inr (int16_pairs arrayBuffer))"

text \<open>
  An \<^verbatim>\<open>AudioBuffer\<close> with one channel. \<^verbatim>\<open>createBuffer(1, length, sampleRate)\<close> throws a
  \<^verbatim>\<open>NotSupportedError\<close> when the length is zero.
\<close>

record audio_buffer =
  channelData :: "float32 list"
  bufferRate :: real

definition duration :: "audio_buffer \<Rightarrow> real" where
  "duration buffer = real (length (channelData buffer)) / bufferRate buffer"

definition createBuffer :: "float32 list \<Rightarrow> real \<Rightarrow> js_error + audio_buffer" where
  "createBuffer float32 rate =
     (if length float32 = 0 then Inl NotSupportedError
      else Inr \<lparr> channelData = float32, bufferRate = rate \<rparr>)"

subsection \<open>The component's state\<close>

datatype CallPhase = connecting | listening | speaking

text \<open>
  The React state and the refs of \<^verbatim>\<open>Home\<close> that the audio path touches
  (\<open>ui_isSpeaking\<close> is the state variable \<^verbatim>\<open>isSpeaking\<close>; \<open>audioContextRef\<close> tells whether
  the ref holds a context). A source node and its end promise share one identity, a
  number; \<open>nextNode\<close> is the next unused one. \<open>settled\<close> lists the end promises already
  resolved, \<open>pendingAll\<close> the snapshots of the \<^verbatim>\<open>Promise.all(...).then(...)\<close> continuations
  that have not run yet. The flow, timer and layout state are not modelled.
\<close>

record page_state =
  ui_isSpeaking :: bool
  isWsConnected :: bool
  callPhase :: CallPhase
  audioContextRef :: bool
  playHeadRef :: real
  sourceNodesRef :: "nat list"
  sourceEndPromisesRef :: "nat list"
  ttsActiveRef :: bool
  nextNode :: nat
  settled :: "nat list"
  pendingAll :: "nat list list"

definition page_init :: page_state where
  "page_init =
     \<lparr> ui_isSpeaking = False, isWsConnected = False, callPhase = connecting,
       audioContextRef = False, playHeadRef = 0, sourceNodesRef = [],
       sourceEndPromisesRef = [], ttsActiveRef = False,
       nextNode = 0, settled = [], pendingAll = [] \<rparr>"

text \<open>
  What the component does to the audio output and when it reports idle, in program order:
  \<open>Scheduled n t d\<close> is \<^verbatim>\<open>src.start(t)\<close> for node \<open>n\<close> with a buffer of duration \<open>d\<close>,
  \<open>Completed n\<close> the \<^verbatim>\<open>onended\<close> notification of node \<open>n\<close>, \<open>IdleReported P\<close> the
  transition back to listening requested by a \<^verbatim>\<open>tts_end\<close> that saw the promises \<open>P\<close>.
\<close>

datatype obs =
    Scheduled nat real real
  | Completed nat
  | IdleReported "nat list"
  | NodeStop nat
  | Thrown js_error

text \<open>
  \<^verbatim>\<open>
  if (!audioContextRef.current) {
    audioContextRef.current = new AudioContextCtor();
    playHeadRef.current = audioContextRef.current.currentTime;
    sourceEndPromisesRef.current = [];
  }
  \<close>
  \<open>currentTime\<close> is the context's clock when the handler runs (of the new context when one
  is created); it does not advance while a handler runs.
\<close>

definition getAudioContext :: "page_state \<Rightarrow> real \<Rightarrow> page_state" where
  "getAudioContext s currentTime =
     (if \<not> audioContextRef s
      then s\<lparr>audioContextRef := True, playHeadRef := currentTime, sourceEndPromisesRef := []\<rparr>
      else s)"

text \<open>
  \<^verbatim>\<open>
  sourceEndPromisesRef.current.push(endPromise);
  sourceNodesRef.current.push(src);
  if (playHeadRef.current < audioCtx.currentTime) playHeadRef.current = audioCtx.currentTime;
  src.start(playHeadRef.current);
  playHeadRef.current += buffer.duration;
  \<close>
\<close>

definition scheduleBuffer :: "page_state \<Rightarrow> real \<Rightarrow> audio_buffer \<Rightarrow> page_state \<times> obs list" where
  "scheduleBuffer s currentTime buffer =
     (let s0 = getAudioContext s currentTime;
          src = nextNode s0;
          s1 = s0\<lparr>nextNode := Suc src,
                  sourceEndPromisesRef := sourceEndPromisesRef s0 @ [src],
                  sourceNodesRef := sourceNodesRef s0 @ [src]\<rparr>;
          s2 = (if playHeadRef s1 < currentTime then s1\<lparr>playHeadRef := currentTime\<rparr> else s1);
          start = playHeadRef s2
      in (s2\<lparr>playHeadRef := playHeadRef s2 + duration buffer\<rparr>,
          [Scheduled src start (duration buffer)]))"

text \<open>
  \<^verbatim>\<open>stopPlaybackImmediately\<close>: stop every node, forget nodes and promises, close and drop
  the context, reset the play head.
\<close>

definition stopPlaybackImmediately :: "page_state \<Rightarrow> page_state \<times> obs list" where
  "stopPlaybackImmediately s =
     (s\<lparr>sourceNodesRef := [], sourceEndPromisesRef := [],
        audioContextRef := False, playHeadRef := 0\<rparr>,
      map NodeStop (sourceNodesRef s))"

text \<open>
  \<^verbatim>\<open>processBinaryChunk\<close>: view the bytes as PCM16, decode to float32, create a buffer at
  16 kHz, schedule it. An exception leaves the handler with what was done so far.
\<close>

definition processBinaryChunk :: "page_state \<Rightarrow> real \<Rightarrow> 8 word list \<Rightarrow> page_state \<times> obs list" where
  "processBinaryChunk s currentTime arrayBuffer =
     (case Int16Array_of arrayBuffer of
        Inl e \<Rightarrow> (s, [Thrown e])
      | Inr int16 \<Rightarrow>
          (let float32 = map int16_to_float int16;
               sampleRate = 16000;
               s1 = getAudioContext s currentTime
           in case createBuffer float32 sampleRate of
                Inl e \<Rightarrow> (s1, [Thrown e])
              | Inr buffer \<Rightarrow> scheduleBuffer s1 currentTime buffer))"

subsection \<open>Event handlers\<close>

text \<open>
  A text message after \<^verbatim>\<open>JSON.parse\<close> and the two tests of \<^verbatim>\<open>msg.type\<close>: anything that
  does not parse, or parses to another type, changes nothing.
\<close>

datatype ws_text = tts_start | tts_end | other_text

datatype page_event =
    EffectStart
  | WsOpen
  | WsBinary "8 word list" real
  | WsText ws_text
  | WsError
  | WsClose
  | MicSpeechStart
  | MicSpeechEnd
  | SourceEnded nat
  | EffectCleanup
  | EndCall

text \<open>The three assignments that end the speaking phase.\<close>

definition report_idle :: "page_state \<Rightarrow> page_state" where
  "report_idle s = s\<lparr>ttsActiveRef := False, ui_isSpeaking := False, callPhase := listening\<rparr>"

definition all_settled :: "page_state \<Rightarrow> nat list \<Rightarrow> bool" where
  "all_settled s P = list_all (\<lambda>n. n \<in> set (settled s)) P"

text \<open>
  \<^verbatim>\<open>
  const pendingPromises = [...sourceEndPromisesRef.current];
  if (pendingPromises.length > 0) Promise.all(pendingPromises).then(() => { idle });
  else { idle }
  \<close>
  The continuation of \<^verbatim>\<open>Promise.all\<close> runs as a microtask once every promise of the
  snapshot is resolved: right after this handler when they all are already, otherwise
  after the \<^verbatim>\<open>onended\<close> handler that resolves the last one.
\<close>

definition on_tts_end :: "page_state \<Rightarrow> page_state \<times> obs list" where
  "on_tts_end s =
     (let pendingPromises = sourceEndPromisesRef s
      in if length pendingPromises > 0
         then (if all_settled s pendingPromises
               then (report_idle s, [IdleReported pendingPromises])
               else (s\<lparr>pendingAll := pendingAll s @ [pendingPromises]\<rparr>, []))
         else (report_idle s, [IdleReported []]))"

text \<open>
  \<^verbatim>\<open>
  src.onended = () => {
    sourceNodesRef.current = sourceNodesRef.current.filter((node) => node !== src);
    resolve();
  };
  \<close>
  followed by the continuations that the resolution releases. A node ends at most once,
  and only a node that was created can end.
\<close>

definition on_ended :: "page_state \<Rightarrow> nat \<Rightarrow> page_state \<times> obs list" where
  "on_ended s src =
     (if src < nextNode s \<and> src \<notin> set (settled s)
      then (let s1 = s\<lparr>sourceNodesRef := filter (\<lambda>node. node \<noteq> src) (sourceNodesRef s),
                        settled := src # settled s\<rparr>;
                ready = filter (all_settled s1) (pendingAll s1);
                s2 = s1\<lparr>pendingAll := filter (\<lambda>P. \<not> all_settled s1 P) (pendingAll s1)\<rparr>
            in (if ready = [] then s2 else report_idle s2,
                Completed src # map IdleReported ready))
      else (s, []))"

fun page_step :: "page_state \<Rightarrow> page_event \<Rightarrow> page_state \<times> obs list" where
  "page_step s EffectStart =
     (s\<lparr>isWsConnected := False, ui_isSpeaking := False, callPhase := connecting\<rparr>, [])"
| "page_step s WsOpen =
     (s\<lparr>isWsConnected := True, callPhase := listening, ttsActiveRef := False\<rparr>, [])"
| "page_step s (WsBinary arrayBuffer currentTime) =
     processBinaryChunk (s\<lparr>ttsActiveRef := True, ui_isSpeaking := True, callPhase := speaking\<rparr>)
       currentTime arrayBuffer"
| "page_step s (WsText tts_start) =
     (s\<lparr>ttsActiveRef := True, ui_isSpeaking := True, callPhase := speaking\<rparr>, [])"
| "page_step s (WsText tts_end) = on_tts_end s"
| "page_step s (WsText other_text) = (s, [])"
| "page_step s WsError = (s\<lparr>isWsConnected := False, callPhase := connecting\<rparr>, [])"
| "page_step s WsClose =
     (s\<lparr>isWsConnected := False, ui_isSpeaking := False, callPhase := connecting\<rparr>, [])"
| "page_step s MicSpeechStart = (if \<not> ttsActiveRef s then s\<lparr>callPhase := listening\<rparr> else s, [])"
| "page_step s MicSpeechEnd = (if \<not> ttsActiveRef s then s\<lparr>callPhase := listening\<rparr> else s, [])"
| "page_step s (SourceEnded src) = on_ended s src"
| "page_step s EffectCleanup =
     (let (s1, out) = stopPlaybackImmediately (s\<lparr>ttsActiveRef := False\<rparr>) in (s1, out))"
| "page_step s EndCall =
     (let (s1, out) = stopPlaybackImmediately s
      in (s1\<lparr>ttsActiveRef := False, isWsConnected := False, ui_isSpeaking := False,
             callPhase := connecting\<rparr>, out))"

fun page_run :: "page_state \<Rightarrow> page_event list \<Rightarrow> page_state \<times> obs list" where
  "page_run s [] = (s, [])"
| "page_run s (e # es) =
     (let (s1, out1) = page_step s e;
          (s2, out2) = page_run s1 es
      in (s2, out1 @ out2))"

text \<open>The schedule of a trace: start time and duration of each started buffer, in order.\<close>

fun schedule_of :: "obs list \<Rightarrow> (real \<times> real) list" where
  "schedule_of [] = []"
| "schedule_of (Scheduled n t d # tr) = (t, d) # schedule_of tr"
| "schedule_of (_ # tr) = schedule_of tr"

text \<open>A buffer, given by start time and duration, ends before another one starts.\<close>

definition ends_before :: "real \<times> real \<Rightarrow> real \<times> real \<Rightarrow> bool" where
  "ends_before a b = (fst a + snd a \<le> fst b)"

section \<open>Properties of the number model\<close>

lemma round_even_of_int: "round_even (of_int m) = m"
  by (simp add: round_even_def)

lemma round_even_err: "\<bar>of_int (round_even r) - r\<bar> \<le> 1 / 2"
proof -
  have "of_int \<lfloor>r\<rfloor> \<le> r" "r < of_int \<lfloor>r\<rfloor> + 1" by linarith+
  then show ?thesis by (auto simp: round_even_def Let_def)
qed

lemma powr2_int: "(2::real) powr real_of_int n = 2 powi n"
  by (rule powr_real_of_int') simp_all

lemma floor_log2_bounds:
  fixes y :: real
  assumes "0 < y"
  shows "2 powi \<lfloor>log 2 y\<rfloor> \<le> y" and "y < 2 powi (\<lfloor>log 2 y\<rfloor> + 1)"
proof -
  have "of_int \<lfloor>log 2 y\<rfloor> \<le> log 2 y" by simp
  then have "2 powr real_of_int \<lfloor>log 2 y\<rfloor> \<le> y"
    using assms by (simp only: le_log_iff [of 2 y, OF _ assms]) 
  then show "2 powi \<lfloor>log 2 y\<rfloor> \<le> y" by (simp only: powr2_int)
  have "log 2 y < real_of_int (\<lfloor>log 2 y\<rfloor> + 1)" by simp
  then have "y < 2 powr real_of_int (\<lfloor>log 2 y\<rfloor> + 1)"
    using assms by (simp only: log_less_iff [of 2 y, OF _ assms])
  then show "y < 2 powi (\<lfloor>log 2 y\<rfloor> + 1)" by (simp only: powr2_int)
qed


lemma b64_err: "\<bar>b64 x - x\<bar> \<le> \<bar>x\<bar> / 2 ^ 53"
proof (cases "x = 0")
  case True
  then show ?thesis by (simp add: b64_def)
next
  case False
  define L where "L = \<lfloor>log 2 \<bar>x\<bar>\<rfloor>"
  define p :: real where "p = 2 powi (L - 52)"
  have pos: "0 < p" by (simp add: p_def)
  have b: "b64 x = of_int (round_even (x / p)) * p"
    using False by (simp add: b64_def Let_def L_def p_def)
  have "b64 x - x = (of_int (round_even (x / p)) - x / p) * p"
    using pos by (simp add: b algebra_simps)
  then have "\<bar>b64 x - x\<bar> = \<bar>of_int (round_even (x / p)) - x / p\<bar> * p"
    using pos by (simp add: abs_mult)
  also have "\<dots> \<le> 1 / 2 * p"
    using round_even_err [of "x / p"] pos by (intro mult_right_mono) simp_all
  finally have e: "\<bar>b64 x - x\<bar> \<le> p / 2" by simp
  have "2 powi L \<le> \<bar>x\<bar>"
    unfolding L_def using False by (intro floor_log2_bounds) simp
  moreover have "(2::real) powi L = p * 2 ^ 52"
  proof -
    have "(2::real) powi L = 2 powi ((L - 52) + 52)" by simp
    also have "\<dots> = 2 powi (L - 52) * 2 powi 52" by (rule power_int_add) simp
    finally show ?thesis by (simp add: p_def)
  qed
  ultimately have "p * 2 ^ 52 \<le> \<bar>x\<bar>" by simp
  then have "p / 2 \<le> \<bar>x\<bar> / 2 ^ 53" by (simp add: field_simps)
  with e show ?thesis by linarith
qed

lemma b64_of_int:
  assumes "\<bar>n\<bar> < 2 ^ 53"
  shows "b64 (of_int n) = of_int n"
proof (cases "n = 0")
  case True
  then show ?thesis by (simp add: b64_def)
next
  case False
  define L where "L = \<lfloor>log 2 \<bar>real_of_int n\<bar>\<rfloor>"
  have npos: "0 < \<bar>real_of_int n\<bar>" using False by simp
  have lt: "\<bar>real_of_int n\<bar> < 2 powi 53"
  proof -
    have "real_of_int \<bar>n\<bar> < real_of_int (2 ^ 53)" using assms by (simp only: of_int_less_iff)
    then show ?thesis by simp
  qed
  have L: "L \<le> 52"
  proof (rule ccontr)
    assume "\<not> L \<le> 52"
    then have "53 \<le> L" by simp
    then have "(2::real) powi 53 \<le> 2 powi L" by (intro power_int_increasing) simp_all
    also have "\<dots> \<le> \<bar>real_of_int n\<bar>" unfolding L_def using npos by (rule floor_log2_bounds)
    finally show False using lt by simp
  qed
  define k where "k = nat (52 - L)"
  have e: "L - 52 = - int k" using L by (simp add: k_def)
  have p: "(2::real) powi (L - 52) = 1 / 2 ^ k"
    unfolding e by (simp add: power_int_minus divide_inverse)
  have m: "real_of_int n / (1 / 2 ^ k) = of_int (n * 2 ^ k)" by simp
  have "b64 (of_int n) = of_int (round_even (real_of_int n / (1 / 2 ^ k))) * (1 / 2 ^ k)"
    using False by (simp add: b64_def Let_def L_def [symmetric] p)
  also have "\<dots> = of_int (n * 2 ^ k) * (1 / 2 ^ k)"
    unfolding m round_even_of_int ..
  also have "\<dots> = of_int n" by simp
  finally show ?thesis .
qed

lemma b64_of_nat: "n < 2 ^ 53 \<Longrightarrow> b64 (real n) = real n"
  using b64_of_int [of "int n"] by simp





lemma b64_numeral:
  "numeral n < (2::int) ^ 53 \<Longrightarrow> b64 (numeral n) = numeral n"
  using b64_of_int [of "numeral n"] by simp

lemma b64_0 [simp]: "b64 0 = 0"
  by (simp add: b64_def)

lemma b64_1 [simp]: "b64 1 = 1"
  using b64_of_int [of 1] by simp

section \<open>Properties of the capture pipeline\<close>

subsection \<open>Resampler\<close>





lemma floor_b64_quotient:
  assumes "0 < k" "n < 2 ^ 53"
  shows "\<lfloor>b64 (real n / real k)\<rfloor> = int (n div k)"
proof (cases "n mod k = 0")
  case True
  then have "k dvd n" by (simp add: dvd_eq_mod_eq_0)
  then have "real n / real k = real (n div k)"
    by (simp add: real_of_nat_div)
  moreover have "n div k < 2 ^ 53"
    using assms(2) div_le_dividend [of n k] by linarith
  ultimately show ?thesis by (simp add: b64_of_nat)
next
  case False
  define q where "q = real n / real k"
  define M where "M = n div k"
  define r where "r = n mod k"
  have k: "0 < real k" using assms(1) by simp
  have n: "real n = real M * real k + real r"
    unfolding M_def r_def by (metis div_mult_mod_eq of_nat_add of_nat_mult)
  have r: "1 \<le> real r" "real r \<le> real k - 1"
  proof -
    from False have "1 \<le> r" by (simp add: r_def)
    then show "1 \<le> real r" by simp
    have "r < k" unfolding r_def using assms(1) by simp
    then have "r + 1 \<le> k" by simp
    then have "real (r + 1) \<le> real k" by (simp only: of_nat_le_iff)
    then show "real r \<le> real k - 1" by simp
  qed
  have q: "q = real M + real r / real k"
    unfolding q_def n using k by (simp add: field_simps)
  have qpos: "0 \<le> q" unfolding q_def by simp
  have "real n < 2 ^ 53"
  proof -
    have "real n < real (2 ^ 53)" using assms(2) by (simp only: of_nat_less_iff)
    then show ?thesis by simp
  qed
  then have "q / 2 ^ 53 < 1 / real k"
    unfolding q_def using k by (simp add: field_simps)
  with b64_err [of q] qpos have err: "\<bar>b64 q - q\<bar> < 1 / real k" by simp
  have lo: "real M + 1 / real k \<le> q"
    unfolding q using r(1) k by (simp add: field_simps)
  have hi: "q \<le> real M + 1 - 1 / real k"
  proof -
    have "real r / real k \<le> (real k - 1) / real k"
      using r(2) k by (simp add: divide_right_mono)
    also have "\<dots> = 1 - 1 / real k" using k by (simp add: field_simps)
    finally show ?thesis unfolding q by simp
  qed
  from err lo hi have "real M < b64 q" "b64 q < real M + 1" by linarith+
  then have "\<lfloor>b64 q\<rfloor> = int M" by (simp add: floor_eq_iff)
  then show ?thesis by (simp add: q_def M_def)
qed

lemma ratio_of_multiple:
  assumes "k < 2 ^ 53"
  shows "ratio_of (targetSampleRate * real k) = real k"
  using assms by (simp add: ratio_of_def targetSampleRate_def b64_of_nat)

lemma newLength_integer_ratio:
  assumes "0 < k" "length input < 2 ^ 53"
  shows "newLength (real k) input = length input div k"
  by (simp add: newLength_def floor_b64_quotient [OF assms])

lemma index_integer_ratio:
  assumes "0 < k" "length input < 2 ^ 53" "i < length input div k"
  shows "\<lfloor>b64 (real i * real k)\<rfloor> = int (i * k)" and "i * k < length input"
proof -
  have "Suc i \<le> length input div k" using assms(3) by simp
  then have "Suc i * k \<le> (length input div k) * k" by (rule mult_le_mono1)
  also have "\<dots> \<le> length input" by simp
  finally show lt: "i * k < length input" using assms(1) by simp
  then have "i * k < 2 ^ 53" using assms(2) by linarith
  then have "b64 (real (i * k)) = real (i * k)" by (rule b64_of_nat)
  then have "\<lfloor>b64 (real (i * k))\<rfloor> = int (i * k)" by (simp only: floor_of_nat)
  then show "\<lfloor>b64 (real i * real k)\<rfloor> = int (i * k)" by (simp only: of_nat_mult)
qed



subsection \<open>Frame encoder\<close>

lemma js_trunc_range:
  assumes "real_of_int a \<le> r" "r \<le> real_of_int b" "a \<le> 0" "0 \<le> b"
  shows "a \<le> js_trunc r \<and> js_trunc r \<le> b"
proof (cases "r < 0")
  case True
  then have "js_trunc r = \<lceil>r\<rceil>" by (simp add: js_trunc_def)
  moreover have "a \<le> \<lceil>r\<rceil>" using assms(1) by (simp add: le_ceiling_iff)
  moreover have "\<lceil>r\<rceil> \<le> 0" using True by (simp add: ceiling_le_iff)
  ultimately show ?thesis using assms(4) by linarith
next
  case False
  then have "js_trunc r = \<lfloor>r\<rfloor>" by (simp add: js_trunc_def)
  moreover have "\<lfloor>r\<rfloor> \<le> b" using assms(2) by (simp add: floor_le_iff)
  moreover have "0 \<le> \<lfloor>r\<rfloor>" using False by simp
  ultimately show ?thesis using assms(3) by linarith
qed

lemma sint_word_of_int_16:
  "- 32768 \<le> k \<Longrightarrow> k \<le> 32767 \<Longrightarrow> sint (word_of_int k :: 16 word) = k"
  by (simp add: sint_sbintrunc' signed_take_bit_int_eq_self_iff)

lemma scaled_range:
  fixes x :: real
  defines "s \<equiv> max (- 1) (min 1 x)"
  shows "- 32768 \<le> js_trunc (if s < 0 then s * 32768 else s * 32767)
       \<and> js_trunc (if s < 0 then s * 32768 else s * 32767) \<le> 32767"
proof -
  have b: "- 1 \<le> s" "s \<le> 1" by (auto simp: s_def)
  let ?v = "if s < 0 then s * 32768 else s * 32767"
  have "real_of_int (- 32768) \<le> ?v" using b by auto
  moreover have "?v \<le> real_of_int 32767" using b by auto
  ultimately show ?thesis by (rule js_trunc_range) simp_all
qed

lemma sint_float_to_pcm16:
  "sint (float_to_pcm16 x) =
     js_trunc (if max (- 1) (min 1 x) < 0 then max (- 1) (min 1 x) * 32768
               else max (- 1) (min 1 x) * 32767)"
  unfolding float_to_pcm16_def Let_def to_int16_def
  using scaled_range [of x] by (intro sint_word_of_int_16) simp_all

text \<open>
  C2: the encoder clamps the sample to \<open>[-1, 1]\<close> and then scales a negative clamped value
  by 32768 and a non-negative one by 32767, truncating towards zero; the 16-bit store does
  not wrap, and the result lies in \<open>[-32768, 32767]\<close>, so it is never \<open>+32768\<close>.
\<close>

theorem float_to_pcm16_spec:
  "sint (float_to_pcm16 x) =
     (let s = max (- 1) (min 1 x)
      in if s < 0 then js_trunc (s * 32768) else js_trunc (s * 32767))
   \<and> - 32768 \<le> sint (float_to_pcm16 x) \<and> sint (float_to_pcm16 x) \<le> 32767
   \<and> sint (float_to_pcm16 x) \<noteq> 32768"
proof -
  let ?s = "max (- 1) (min 1 x)"
  let ?v = "if ?s < 0 then ?s * 32768 else ?s * 32767"
  have r: "- 32768 \<le> js_trunc ?v" "js_trunc ?v \<le> 32767"
    using scaled_range [of x] by simp_all
  have "sint (float_to_pcm16 x) = js_trunc ?v"
    by (rule sint_float_to_pcm16)
  then show ?thesis using r by (simp add: Let_def)
qed

theorem float_to_pcm16_spec_witness:
  "sint (float_to_pcm16 1) = 32767 \<and> sint (float_to_pcm16 (- 1)) = - 32768
   \<and> sint (float_to_pcm16 (- 0.5)) = - 16384 \<and> sint (float_to_pcm16 0.5) = 16383
   \<and> sint (float_to_pcm16 5) = 32767 \<and> sint (float_to_pcm16 5) \<noteq> 32768"
  using float_to_pcm16_spec [of 5]
  by (simp add: float_to_pcm16_def to_int16_def js_trunc_def)

subsection \<open>Encoding round trip\<close>

lemma roundtrip_neg:
  assumes "- 1 \<le> x" "x < 0"
  shows "0 \<le> int16_to_float (float_to_pcm16 x) - x"
    and "int16_to_float (float_to_pcm16 x) - x < 1 / 32768"
proof -
  have s: "max (- 1) (min 1 x) = x" using assms by simp
  have y: "sint (float_to_pcm16 x) = \<lceil>x * 32768\<rceil>"
    using assms by (simp add: sint_float_to_pcm16 s js_trunc_def)
  define r where "r = real_of_int \<lceil>x * 32768\<rceil>"
  have d: "int16_to_float (float_to_pcm16 x) = r / 32768"
    by (simp add: int16_to_float_def y r_def)
  have "x * 32768 \<le> r" unfolding r_def by (rule le_of_int_ceiling)
  moreover have "r < x * 32768 + 1" unfolding r_def by linarith
  ultimately show "0 \<le> int16_to_float (float_to_pcm16 x) - x"
    and "int16_to_float (float_to_pcm16 x) - x < 1 / 32768"
    unfolding d by linarith+
qed

lemma roundtrip_nonneg:
  assumes "0 \<le> x" "x \<le> 1"
  shows "0 \<le> x - int16_to_float (float_to_pcm16 x)"
    and "x - int16_to_float (float_to_pcm16 x) < (x + 1) / 32768"
proof -
  have s: "max (- 1) (min 1 x) = x" using assms by simp
  have y: "sint (float_to_pcm16 x) = \<lfloor>x * 32767\<rfloor>"
    using assms by (simp add: sint_float_to_pcm16 s js_trunc_def)
  define r where "r = real_of_int \<lfloor>x * 32767\<rfloor>"
  have d: "int16_to_float (float_to_pcm16 x) = r / 32768"
    by (simp add: int16_to_float_def y r_def)
  have lo: "r \<le> x * 32767" unfolding r_def by (rule of_int_floor_le)
  have hi: "x * 32767 < r + 1" unfolding r_def by linarith
  have "r \<le> x * 32768" using lo assms(1) by linarith
  then show "0 \<le> x - int16_to_float (float_to_pcm16 x)"
    unfolding d by simp
  have "x * 32768 - r < x + 1" using hi by linarith
  then have "(x * 32768 - r) / 32768 < (x + 1) / 32768"
    by (simp only: divide_strict_right_mono zero_less_numeral)
  then show "x - int16_to_float (float_to_pcm16 x) < (x + 1) / 32768"
    unfolding d by (simp add: diff_divide_distrib)
qed

text \<open>
  C9 as stated fails: the sample \<open>65535/65536\<close> (a float32 value) is encoded as 32766 and
  decoded as \<open>32766/32768\<close>, which is \<open>1.5/32768\<close> away from it.
\<close>

theorem roundtrip_counterexample:
  "\<not> (\<forall>x::real. - 1 \<le> x \<and> x \<le> 1 \<longrightarrow> \<bar>int16_to_float (float_to_pcm16 x) - x\<bar> \<le> 1 / 32768)"
proof
  assume "\<forall>x::real. - 1 \<le> x \<and> x \<le> 1 \<longrightarrow> \<bar>int16_to_float (float_to_pcm16 x) - x\<bar> \<le> 1 / 32768"
  then have "\<bar>int16_to_float (float_to_pcm16 (65535 / 65536)) - 65535 / 65536\<bar> \<le> 1 / 32768"
    by simp
  moreover have "float_to_pcm16 (65535 / 65536) = 32766"
    by (simp add: float_to_pcm16_def to_int16_def js_trunc_def)
  ultimately show False by (simp add: int16_to_float_def)
qed

text \<open>
  C9, amended: for every \<open>x\<close> in \<open>[-1, 1]\<close> the decoded value is within \<open>2/32768\<close> of \<open>x\<close>
  (strictly), and within \<open>1/32768\<close> when \<open>x \<le> 0\<close>. The bound doubles on the positive
  side because the encoder scales by 32767 and the decoder divides by 32768.
\<close>

theorem roundtrip_amended:
  assumes "- 1 \<le> x" "x \<le> 1"
  shows "\<bar>int16_to_float (float_to_pcm16 x) - x\<bar> < 2 / 32768
       \<and> (x \<le> 0 \<longrightarrow> \<bar>int16_to_float (float_to_pcm16 x) - x\<bar> < 1 / 32768)"
proof (cases "x < 0")
  case True
  with roundtrip_neg [of x] assms show ?thesis by simp
next
  case False
  have z: "int16_to_float (float_to_pcm16 0) = 0" 
    by (simp add: float_to_pcm16_def to_int16_def js_trunc_def int16_to_float_def)
  from False roundtrip_nonneg [of x] assms 
  have "0 \<le> x - int16_to_float (float_to_pcm16 x)" "x - int16_to_float (float_to_pcm16 x) < 2 / 32768"
    by simp_all
  then have "\<bar>int16_to_float (float_to_pcm16 x) - x\<bar> < 2 / 32768" by simp
  moreover have "x \<le> 0 \<Longrightarrow> x = 0" using False by simp
  ultimately show ?thesis using z by auto
qed

theorem roundtrip_amended_witness:
  "- 1 \<le> (65535 / 65536 :: real) \<and> (65535 / 65536 :: real) \<le> 1
   \<and> int16_to_float (float_to_pcm16 (65535 / 65536)) = 32766 / 32768
   \<and> \<bar>int16_to_float (float_to_pcm16 (65535 / 65536)) - 65535 / 65536\<bar> < 2 / 32768"
  using roundtrip_amended [of "65535 / 65536"]
  by (simp add: float_to_pcm16_def to_int16_def js_trunc_def int16_to_float_def)

subsection \<open>Frame chunking\<close>

lemma frames_from_explicit:
  "frames_from i pcm16 =
     map (\<lambda>k. take FRAME_SIZE (drop (i + FRAME_SIZE * k) pcm16))
         [0..<(length pcm16 - i) div FRAME_SIZE]"
proof (induction i pcm16 rule: frames_from.induct)
  case (1 i pcm16)
  show ?case
  proof (cases "i < length pcm16")
    case False
    then show ?thesis by (subst frames_from.simps) (simp add: FRAME_SIZE_def)
  next
    case True
    note IH = 1 [OF True refl]
    show ?thesis
    proof (cases "length pcm16 - i < FRAME_SIZE")
      case short: True
      then have "\<not> i + FRAME_SIZE < length pcm16" by arith
      then have "frames_from (i + FRAME_SIZE) pcm16 = []"
        by (subst frames_from.simps) simp
      with True short show ?thesis
        by (subst frames_from.simps) (simp add: Let_def)
    next
      case long: False
      define n where "n = (length pcm16 - (i + FRAME_SIZE)) div FRAME_SIZE"
      have n: "(length pcm16 - i) div FRAME_SIZE = Suc n"
        using long by (simp add: n_def FRAME_SIZE_def le_div_geq)
      have "frames_from i pcm16 = take FRAME_SIZE (drop i pcm16) # frames_from (i + FRAME_SIZE) pcm16"
        using True long by (subst frames_from.simps) (simp add: Let_def)
      also have "\<dots> = take FRAME_SIZE (drop i pcm16) #
          map (\<lambda>k. take FRAME_SIZE (drop (i + FRAME_SIZE + FRAME_SIZE * k) pcm16)) [0..<n]"
        by (simp add: IH n_def)
      also have "\<dots> = map (\<lambda>k. take FRAME_SIZE (drop (i + FRAME_SIZE * k) pcm16)) (0 # map Suc [0..<n])"
        by (simp add: o_def add.assoc)
      also have "0 # map Suc [0..<n] = [0..<Suc n]"
        by (simp add: upt_conv_Cons map_Suc_upt del: upt_Suc)
      finally show ?thesis by (simp only: n)
    qed
  qed
qed

lemma slice_length:
  assumes "k < length pcm16 div FRAME_SIZE"
  shows "length (take FRAME_SIZE (drop (FRAME_SIZE * k) pcm16)) = FRAME_SIZE"
proof -
  have "FRAME_SIZE * Suc k \<le> FRAME_SIZE * (length pcm16 div FRAME_SIZE)"
    using assms by (intro mult_le_mono2) simp
  also have "\<dots> \<le> length pcm16" by simp
  finally show ?thesis by simp
qed

lemma concat_slices:
  "concat (map (\<lambda>k. take m (drop (m * k) xs)) [0..<n]) = take (m * n) xs"
proof (induction n)
  case 0
  then show ?case by simp
next
  case (Suc n)
  have "take (m * n) xs @ take m (drop (m * n) xs) = take (m * n + m) xs"
    by (simp add: take_add)
  with Suc show ?case by (simp add: add.commute)
qed

lemma frames_of_append: "frames_of (a @ b) = frames_of a @ frames_of b"
  by (induction a rule: frames_of.induct) simp_all

lemma frames_of_binary: "frames_of (map WsSendBinary fs) = fs"
  by (induction fs) simp_all

lemma frames_of_vad: "frames_of (snd (vad_decision env rms th now s)) = []"
  by (simp add: vad_decision_def Let_def)

lemma frames_of_tick:
  "frames_of (snd (onaudioprocess env s ev)) =
     (if wsOpen ev then frames_from 0 (pcm16_of env ev) else [])"
  by (simp add: onaudioprocess_def Let_def split_beta frames_of_append frames_of_binary
      frames_of_vad pcm16_of_def)

lemma ratio_48000: "ratio_of 48000 = 3"
  using ratio_of_multiple [of 3] by (simp add: targetSampleRate_def)

lemma eval_downsample_963:
  "downsample (ratio_of 48000) (replicate 963 c) = replicate 321 (Some c)"
proof -
  have k: "(0::nat) < 3" "length (replicate 963 c) < 2 ^ 53" by simp_all
  have n: "newLength (real (3::nat)) (replicate 963 c) = 321"
    unfolding newLength_integer_ratio [OF k] by simp
  have "typed_read (replicate 963 c) \<lfloor>b64 (real i * real (3::nat))\<rfloor> = Some c"
    if "i < 321" for i
  proof -
    from that have i: "i < length (replicate 963 c) div 3" by simp
    note ix = index_integer_ratio [OF k i]
    show ?thesis
      unfolding ix(1) typed_read_def using ix(2)
      by (simp only: nat_int of_nat_0_le_iff simp_thms if_True) simp
  qed
  then have "map (\<lambda>i. typed_read (replicate 963 c) \<lfloor>b64 (real i * real (3::nat))\<rfloor>) [0..<321]
      = map (\<lambda>i. Some c) [0..<321]"
    by (intro map_cong refl) simp
  then have "downsample (real (3::nat)) (replicate 963 c) = replicate 321 (Some c)"
    unfolding downsample_def n by (simp add: map_replicate_const)
  then show ?thesis by (simp add: ratio_48000)
qed

text \<open>
  C1: in every tick, each binary message sent on the socket is a frame of exactly 320
  samples (640 bytes). The frames are the consecutive full 320-sample slices of the tick's
  own encoded buffer; the remainder shorter than 320 samples is not sent, not padded, and
  not kept: the frames of a tick do not depend on the closure's state, which holds no
  samples.
\<close>

theorem tick_frames:
  fixes env s ev
  defines "pcm16 \<equiv> map sample_to_pcm16
                      (downsample (ratio_of (sampleRate env)) (inputBuffer ev))"
  defines "sent \<equiv> frames_of (snd (onaudioprocess env s ev))"
  shows "(\<forall>frame \<in> set sent. length frame = 320 \<and> byteLength frame = 640)
       \<and> (wsOpen ev \<longrightarrow>
            sent = map (\<lambda>k. take 320 (drop (320 * k) pcm16)) [0..<length pcm16 div 320]
          \<and> concat sent = take (320 * (length pcm16 div 320)) pcm16)
       \<and> (\<not> wsOpen ev \<longrightarrow> sent = [])
       \<and> frames_of (snd (onaudioprocess env s' ev)) = sent"
proof -
  have sent: "sent = (if wsOpen ev then frames_from 0 pcm16 else [])"
    unfolding sent_def pcm16_def frames_of_tick pcm16_of_def by (rule refl)
  have ex: "frames_from 0 pcm16 =
      map (\<lambda>k. take 320 (drop (320 * k) pcm16)) [0..<length pcm16 div 320]"
    using frames_from_explicit [of 0 pcm16] by (simp add: FRAME_SIZE_def)
  have len: "length frame = 320" if "frame \<in> set (frames_from 0 pcm16)" for frame
  proof -
    from that have "frame \<in> (\<lambda>k. take 320 (drop (320 * k) pcm16)) ` {0..<length pcm16 div 320}"
      unfolding ex by simp
    then obtain k where k: "k < length pcm16 div 320"
      and f: "frame = take 320 (drop (320 * k) pcm16)"
      by auto
    from k have "length (take FRAME_SIZE (drop (FRAME_SIZE * k) pcm16)) = FRAME_SIZE"
      by (intro slice_length) (simp add: FRAME_SIZE_def)
    then show ?thesis unfolding f FRAME_SIZE_def .
  qed
  have cc: "concat (frames_from 0 pcm16) = take (320 * (length pcm16 div 320)) pcm16"
    unfolding ex by (rule concat_slices)
  have indep: "frames_of (snd (onaudioprocess env s' ev)) = sent"
    unfolding sent_def frames_of_tick by (rule refl)
  have 1: "\<forall>frame \<in> set sent. length frame = 320 \<and> byteLength frame = 640"
  proof
    fix frame assume "frame \<in> set sent"
    then have "frame \<in> set (frames_from 0 pcm16)"
      unfolding sent by (simp split: if_splits)
    then have "length frame = 320" by (rule len)
    then show "length frame = 320 \<and> byteLength frame = 640" by (simp add: byteLength_def)
  qed
  have 2: "wsOpen ev \<longrightarrow>
            sent = map (\<lambda>k. take 320 (drop (320 * k) pcm16)) [0..<length pcm16 div 320]
          \<and> concat sent = take (320 * (length pcm16 div 320)) pcm16"
    using ex cc unfolding sent by simp
  have 3: "\<not> wsOpen ev \<longrightarrow> sent = []" unfolding sent by simp
  from 1 2 3 indep show ?thesis by (intro conjI)
qed

theorem tick_frames_witness:
  "wsOpen \<lparr>wsOpen = True, inputBuffer = replicate 963 (1 / 2), perfNow1 = 10, perfNow2 = 10\<rparr>
   \<and> frames_of (snd (onaudioprocess (mic_env_of True default_options 48000 0) mic_init
        \<lparr>wsOpen = True, inputBuffer = replicate 963 (1 / 2), perfNow1 = 10, perfNow2 = 10\<rparr>))
      = [replicate 320 16383]"
proof -
  have env: "sampleRate (mic_env_of True default_options 48000 0) = 48000"
    by (simp add: mic_env_of_def)
  have enc: "float_to_pcm16 (1 / 2) = 16383"
    by (simp add: float_to_pcm16_def to_int16_def js_trunc_def)
  show ?thesis
    using tick_frames [of "mic_env_of True default_options 48000 0" mic_init
      "\<lparr>wsOpen = True, inputBuffer = replicate 963 (1 / 2), perfNow1 = 10, perfNow2 = 10\<rparr>" mic_init]
    by (simp add: env eval_downsample_963 enc)
qed

subsection \<open>Ticks while the socket is not open\<close>

lemma mic_run_append:
  "mic_run env s (xs @ ys) =
     (let (s1, out1) = mic_run env s xs; (s2, out2) = mic_run env s1 ys in (s2, out1 @ out2))"
  by (induction xs arbitrary: s) (simp_all add: split_beta Let_def)

lemma mic_run_closed_ticks:
  "mic_run env s (map Tick evs) = mic_run env s (map Tick (filter wsOpen evs))"
proof (induction evs arbitrary: s)
  case Nil
  then show ?case by simp
next
  case (Cons ev evs)
  show ?case
  proof (cases "wsOpen ev")
    case True
    then show ?thesis by (simp add: Cons.IH)
  next
    case False
    then have "onaudioprocess env s ev = (s, [])" by (simp add: onaudioprocess_def)
    with False show ?thesis by (simp add: Cons.IH)
  qed
qed

text \<open>
  C10: a tick that finds the socket not OPEN does nothing: no message is sent, no callback
  is called, and the state (\<open>isSpeaking\<close>, \<open>lastSpeechTs\<close>, \<open>noiseSum\<close>, \<open>noiseCount\<close>,
  \<open>framesSent\<close>) is unchanged. A session therefore behaves as if those ticks had not
  happened; in particular they add nothing to the noise-floor calibration.
\<close>

theorem closed_socket_tick_noop:
  "(\<not> wsOpen ev \<longrightarrow> onaudioprocess env s ev = (s, []))
   \<and> mic_run env s (map Tick evs) = mic_run env s (map Tick (filter wsOpen evs))"
  using mic_run_closed_ticks [of env s evs] by (simp add: onaudioprocess_def)

theorem closed_socket_tick_noop_witness:
  "\<not> wsOpen \<lparr>wsOpen = False, inputBuffer = [1, 1, 1], perfNow1 = 10, perfNow2 = 10\<rparr>
   \<and> onaudioprocess (mic_env_of True default_options 48000 0) mic_init
        \<lparr>wsOpen = False, inputBuffer = [1, 1, 1], perfNow1 = 10, perfNow2 = 10\<rparr> = (mic_init, [])
   \<and> noiseCount (fst (onaudioprocess (mic_env_of True default_options 48000 0) mic_init
        \<lparr>wsOpen = False, inputBuffer = [1, 1, 1], perfNow1 = 10, perfNow2 = 10\<rparr>)) = 0"
  using closed_socket_tick_noop [of "\<lparr>wsOpen = False, inputBuffer = [1, 1, 1], perfNow1 = 10, perfNow2 = 10\<rparr>"
      "mic_env_of True default_options 48000 0" mic_init "[]"]
  by (simp add: mic_init_def)

subsection \<open>Voice activity detection\<close>

lemma edges_of_append: "edges_of (a @ b) = edges_of a @ edges_of b"
  by (induction a rule: edges_of.induct) simp_all

lemma edges_of_binary: "edges_of (map WsSendBinary fs) = []"
  by (induction fs) simp_all

lemma edges_of_vad:
  "edges_of (snd (vad_decision env rms th now s)) =
     (if js_ge rms th then (if isSpeaking s then [] else [speech_start])
      else if isSpeaking s \<and> b64 (now - lastSpeechTs s) \<ge> silenceMs env then [speech_end]
      else [])"
  by (simp add: vad_decision_def Let_def)

lemma state_of_vad:
  "fst (vad_decision env rms th now s) =
     (if js_ge rms th then s\<lparr>lastSpeechTs := now, isSpeaking := True\<rparr>
      else if isSpeaking s \<and> b64 (now - lastSpeechTs s) \<ge> silenceMs env
      then s\<lparr>isSpeaking := False\<rparr>
      else s)"
  by (cases "isSpeaking s") (simp_all add: vad_decision_def Let_def)

lemma tick_open:
  assumes "wsOpen ev"
  shows "edges_of (snd (onaudioprocess env s ev)) =
           edges_of (snd (vad_decision env (tick_rms env ev)
              (threshold_of env (calibrate env (perfNow1 ev) (tick_rms env ev) s)) (perfNow2 ev)
              (calibrate env (perfNow1 ev) (tick_rms env ev) s)))"
    and "isSpeaking (fst (onaudioprocess env s ev)) =
           isSpeaking (fst (vad_decision env (tick_rms env ev)
              (threshold_of env (calibrate env (perfNow1 ev) (tick_rms env ev) s)) (perfNow2 ev)
              (calibrate env (perfNow1 ev) (tick_rms env ev) s)))"
    and "lastSpeechTs (fst (onaudioprocess env s ev)) =
           lastSpeechTs (fst (vad_decision env (tick_rms env ev)
              (threshold_of env (calibrate env (perfNow1 ev) (tick_rms env ev) s)) (perfNow2 ev)
              (calibrate env (perfNow1 ev) (tick_rms env ev) s)))"
    and "noiseSum (fst (onaudioprocess env s ev)) =
           noiseSum (calibrate env (perfNow1 ev) (tick_rms env ev) s)"
    and "noiseCount (fst (onaudioprocess env s ev)) =
           noiseCount (calibrate env (perfNow1 ev) (tick_rms env ev) s)"
  using assms
  by (simp_all add: onaudioprocess_def Let_def split_beta edges_of_append edges_of_binary
      tick_rms_def tick_downsampled_def state_of_vad)

lemma calibrate_fields:
  "isSpeaking (calibrate env t rms s) = isSpeaking s"
  "lastSpeechTs (calibrate env t rms s) = lastSpeechTs s"
  "noiseCount (calibrate env t rms s) =
     (if b64 (t - streamStartTime env) < 500 then noiseCount s + 1 else noiseCount s)"
  "noiseSum (calibrate env t rms s) =
     (if b64 (t - streamStartTime env) < 500 then js_add (noiseSum s) rms else noiseSum s)"
  by (simp_all add: calibrate_def Let_def calibrationMs_def)

text \<open>An empty buffer has no energy estimate, and NaN in the noise sum stays there.\<close>

lemma rms_of_empty: "rms_of [] = NaN"
  by (simp add: rms_of_def energySum_def)

lemma noiseSum_poisoned:
  "noiseSum s = NaN \<Longrightarrow> noiseSum (calibrate env t rms s) = NaN"
  by (simp add: calibrate_def Let_def)

lemma threshold_poisoned:
  "noiseSum s = NaN \<Longrightarrow> 0 < noiseCount s \<Longrightarrow> \<not> js_ge rms (threshold_of env s)"
  by (simp add: threshold_of_def estNoise_def)


lemma b64_001: "0 < b64 (1 / 100)" "b64 (1 / 100) < 1"
proof -
  have "\<bar>b64 (1 / 100) - 1 / 100\<bar> \<le> \<bar>1 / 100\<bar> / 2 ^ 53" by (rule b64_err)
  also have "\<dots> < 1 / 200" by simp
  finally have "\<bar>b64 (1 / 100) - 1 / 100\<bar> < 1 / 200" .
  then show "0 < b64 (1 / 100)" "b64 (1 / 100) < 1" by linarith+
qed


lemma eval_downsample3:
  "downsample (ratio_of 48000) [a, b, c] = [Some a]"
  by (simp add: downsample_def ratio_48000 newLength_def typed_read_def)

lemma eval_rms_single:
  "rms_of [Some 1] = Some 1" "rms_of [Some 0] = Some 0"
  by (simp_all add: rms_of_def energySum_def)



subsection \<open>Alternation of the edge events\<close>

lemma alternating_Cons:
  "alternating (x # es) = (es = [] \<or> hd es \<noteq> x \<and> alternating es)"
  by (cases es) auto

lemma alternating_snoc:
  "alternating (es @ [x]) = (es = [] \<or> last es \<noteq> x \<and> alternating es)"
  by (induction es rule: alternating.induct) auto

lemma tick_edge_cases:
  "(edges_of (snd (onaudioprocess env s ev)) = []
      \<and> isSpeaking (fst (onaudioprocess env s ev)) = isSpeaking s)
   \<or> (edges_of (snd (onaudioprocess env s ev)) = [speech_start]
      \<and> \<not> isSpeaking s \<and> isSpeaking (fst (onaudioprocess env s ev)))
   \<or> (edges_of (snd (onaudioprocess env s ev)) = [speech_end]
      \<and> isSpeaking s \<and> \<not> isSpeaking (fst (onaudioprocess env s ev)))"
proof (cases "wsOpen ev")
  case False
  then show ?thesis by (simp add: onaudioprocess_def)
next
  case True
  show ?thesis
    unfolding tick_open(1,2) [OF True] edges_of_vad state_of_vad
    by (simp add: calibrate_fields)
qed

lemma run_ticks_edges:
  "alternating (edges_of (snd (mic_run env s (map Tick evs))))
   \<and> (edges_of (snd (mic_run env s (map Tick evs))) \<noteq> [] \<longrightarrow>
        hd (edges_of (snd (mic_run env s (map Tick evs))))
          = (if isSpeaking s then speech_end else speech_start))
   \<and> isSpeaking (fst (mic_run env s (map Tick evs)))
       = (if edges_of (snd (mic_run env s (map Tick evs))) = [] then isSpeaking s
          else last (edges_of (snd (mic_run env s (map Tick evs)))) = speech_start)"
proof (induction evs arbitrary: s)
  case Nil
  then show ?case by simp
next
  case (Cons ev evs)
  define s1 where "s1 = fst (onaudioprocess env s ev)"
  define e1 where "e1 = edges_of (snd (onaudioprocess env s ev))"
  define e2 where "e2 = edges_of (snd (mic_run env s1 (map Tick evs)))"
  define s2 where "s2 = fst (mic_run env s1 (map Tick evs))"
  have run: "edges_of (snd (mic_run env s (map Tick (ev # evs)))) = e1 @ e2"
    "fst (mic_run env s (map Tick (ev # evs))) = s2"
    by (simp_all add: split_beta edges_of_append e1_def e2_def s1_def s2_def)
  have IH: "alternating e2"
    "e2 \<noteq> [] \<longrightarrow> hd e2 = (if isSpeaking s1 then speech_end else speech_start)"
    "isSpeaking s2 = (if e2 = [] then isSpeaking s1 else last e2 = speech_start)"
    using Cons.IH [of s1] by (simp_all add: e2_def s2_def)
  have cases: "(e1 = [] \<and> isSpeaking s1 = isSpeaking s)
     \<or> (e1 = [speech_start] \<and> \<not> isSpeaking s \<and> isSpeaking s1)
     \<or> (e1 = [speech_end] \<and> isSpeaking s \<and> \<not> isSpeaking s1)"
    using tick_edge_cases [of env s ev] by (simp add: e1_def s1_def)
  show ?case
    unfolding run using cases IH by (auto simp: alternating_Cons)
qed

lemma frames_from_short: "length pcm16 < FRAME_SIZE \<Longrightarrow> frames_from 0 pcm16 = []"
  by (subst frames_from.simps, subst frames_from.simps) (simp add: Let_def)

lemma eval_tick_silent:
  "onaudioprocess (mic_env_of False default_options 48000 0) mic_init
     \<lparr>wsOpen = True, inputBuffer = [0, 0, 0], perfNow1 = 10, perfNow2 = 10\<rparr>
   = (\<lparr>framesSent = 0, isSpeaking = False, lastSpeechTs = 0, noiseSum = Some 0, noiseCount = Suc 0\<rparr>, [])"
  by (simp add: onaudioprocess_def eval_downsample3 eval_rms_single Let_def
      mic_env_of_def default_options_def mic_init_def calibrate_def calibrationMs_def
      threshold_of_def estNoise_def vad_decision_def frames_from_short FRAME_SIZE_def
      b64_numeral b64_001 not_le)

lemma eval_tick_loud:
  "onaudioprocess (mic_env_of False default_options 48000 0)
     \<lparr>framesSent = 0, isSpeaking = False, lastSpeechTs = 0, noiseSum = Some 0, noiseCount = Suc 0\<rparr>
     \<lparr>wsOpen = True, inputBuffer = [1, 1, 1], perfNow1 = 520, perfNow2 = 520\<rparr>
   = (\<lparr>framesSent = 0, isSpeaking = True, lastSpeechTs = 520, noiseSum = Some 0, noiseCount = Suc 0\<rparr>,
      [WsSendJson speech_start])"
  by (simp add: onaudioprocess_def eval_downsample3 eval_rms_single Let_def
      mic_env_of_def default_options_def calibrate_def calibrationMs_def
      threshold_of_def estNoise_def vad_decision_def frames_from_short FRAME_SIZE_def
      b64_numeral b64_001 less_imp_le)

lemma default_callbacks:
  "onSpeechStart (mic_env_of lvl default_options rate t0) = False"
  "onSpeechEnd (mic_env_of lvl default_options rate t0) = False"
  by (simp_all add: mic_env_of_def default_options_def)

text \<open>
  C7 as stated fails. After a \<^verbatim>\<open>speech_start\<close>, \<^verbatim>\<open>stop()\<close> on a socket that is not OPEN
  sends no \<^verbatim>\<open>speech_end\<close>, so the \<^verbatim>\<open>speech_start\<close> stays unmatched; and since \<^verbatim>\<open>stop()\<close>
  leaves \<open>isSpeaking\<close> set, a second \<^verbatim>\<open>stop()\<close> sends a second \<^verbatim>\<open>speech_end\<close>.
\<close>

theorem stop_edges_counterexample:
  "isSpeaking (fst (mic_run (mic_env_of False default_options 48000 0) mic_init
      [Tick \<lparr>wsOpen = True, inputBuffer = [0, 0, 0], perfNow1 = 10, perfNow2 = 10\<rparr>,
       Tick \<lparr>wsOpen = True, inputBuffer = [1, 1, 1], perfNow1 = 520, perfNow2 = 520\<rparr>]))
   \<and> edges_of (snd (mic_run (mic_env_of False default_options 48000 0) mic_init
      [Tick \<lparr>wsOpen = True, inputBuffer = [0, 0, 0], perfNow1 = 10, perfNow2 = 10\<rparr>,
       Tick \<lparr>wsOpen = True, inputBuffer = [1, 1, 1], perfNow1 = 520, perfNow2 = 520\<rparr>,
       Stop False])) = [speech_start]
   \<and> edges_of (snd (mic_run (mic_env_of False default_options 48000 0) mic_init
      [Tick \<lparr>wsOpen = True, inputBuffer = [0, 0, 0], perfNow1 = 10, perfNow2 = 10\<rparr>,
       Tick \<lparr>wsOpen = True, inputBuffer = [1, 1, 1], perfNow1 = 520, perfNow2 = 520\<rparr>,
       Stop True, Stop True])) = [speech_start, speech_end, speech_end]
   \<and> \<not> alternating [speech_start, speech_end, speech_end]"
  by (simp add: eval_tick_silent eval_tick_loud stop_def)

text \<open>
  C7, amended: over the ticks of a session followed by one call of \<^verbatim>\<open>stop()\<close>, the edge
  events alternate, starting with \<^verbatim>\<open>speech_start\<close>; \<open>isSpeaking\<close> holds exactly when the
  last edge is a \<^verbatim>\<open>speech_start\<close>. That \<^verbatim>\<open>stop()\<close> sends exactly one \<^verbatim>\<open>speech_end\<close>, before it
  releases the device, when \<open>isSpeaking\<close> holds and the socket is OPEN, and none otherwise;
  with the socket OPEN no \<^verbatim>\<open>speech_start\<close> stays unmatched.
\<close>

theorem edges_alternate_until_stop:
  fixes env evs ready
  defines "ticks \<equiv> mic_run env mic_init (map Tick evs)"
  defines "whole \<equiv> mic_run env mic_init (map Tick evs @ [Stop ready])"
  shows "alternating (edges_of (snd ticks))
       \<and> (edges_of (snd ticks) \<noteq> [] \<longrightarrow> hd (edges_of (snd ticks)) = speech_start)
       \<and> (isSpeaking (fst ticks)
            \<longleftrightarrow> edges_of (snd ticks) \<noteq> [] \<and> last (edges_of (snd ticks)) = speech_start)
       \<and> snd whole = snd ticks
            @ (if isSpeaking (fst ticks) \<and> ready
               then WsSendJson speech_end # (if onSpeechEnd env then [CallOnSpeechEnd] else [])
               else [])
            @ [ProcessorDisconnect, SourceDisconnect, TracksStop, AudioContextClose]
       \<and> edges_of (snd whole)
           = edges_of (snd ticks) @ (if isSpeaking (fst ticks) \<and> ready then [speech_end] else [])
       \<and> alternating (edges_of (snd whole))
       \<and> (ready \<longrightarrow> edges_of (snd whole) = [] \<or> last (edges_of (snd whole)) = speech_end)"
proof -
  note r = run_ticks_edges [of env mic_init evs, folded ticks_def]
  have init: "\<not> isSpeaking mic_init" by (simp add: mic_init_def)
  have a: "alternating (edges_of (snd ticks))" using r by simp
  have h: "edges_of (snd ticks) \<noteq> [] \<longrightarrow> hd (edges_of (snd ticks)) = speech_start"
    using r init by simp
  have sp: "isSpeaking (fst ticks)
            \<longleftrightarrow> edges_of (snd ticks) \<noteq> [] \<and> last (edges_of (snd ticks)) = speech_start"
    using r init by simp
  have w: "snd whole = snd ticks
            @ (if isSpeaking (fst ticks) \<and> ready
               then WsSendJson speech_end # (if onSpeechEnd env then [CallOnSpeechEnd] else [])
               else [])
            @ [ProcessorDisconnect, SourceDisconnect, TracksStop, AudioContextClose]"
    by (simp add: whole_def ticks_def mic_run_append split_beta stop_def)
  have e: "edges_of (snd whole)
           = edges_of (snd ticks) @ (if isSpeaking (fst ticks) \<and> ready then [speech_end] else [])"
    unfolding w by (simp add: edges_of_append)
  have aw: "alternating (edges_of (snd whole))"
    unfolding e using a sp by (simp add: alternating_snoc)
  have bal: "ready \<longrightarrow> edges_of (snd whole) = [] \<or> last (edges_of (snd whole)) = speech_end"
    unfolding e using sp by (cases "last (edges_of (snd ticks))") auto
  show ?thesis by (intro conjI) (fact a h sp w e aw bal)+
qed

theorem edges_alternate_until_stop_witness:
  "edges_of (snd (mic_run (mic_env_of False default_options 48000 0) mic_init
      (map Tick [\<lparr>wsOpen = True, inputBuffer = [0, 0, 0], perfNow1 = 10, perfNow2 = 10\<rparr>,
                 \<lparr>wsOpen = True, inputBuffer = [1, 1, 1], perfNow1 = 520, perfNow2 = 520\<rparr>]
       @ [Stop True]))) = [speech_start, speech_end]
   \<and> alternating [speech_start, speech_end]
   \<and> snd (mic_run (mic_env_of False default_options 48000 0) mic_init
      (map Tick [\<lparr>wsOpen = True, inputBuffer = [0, 0, 0], perfNow1 = 10, perfNow2 = 10\<rparr>,
                 \<lparr>wsOpen = True, inputBuffer = [1, 1, 1], perfNow1 = 520, perfNow2 = 520\<rparr>]
       @ [Stop True]))
     = [WsSendJson speech_start, WsSendJson speech_end,
        ProcessorDisconnect, SourceDisconnect, TracksStop, AudioContextClose]"
  using edges_alternate_until_stop [of "mic_env_of False default_options 48000 0"
      "[\<lparr>wsOpen = True, inputBuffer = [0, 0, 0], perfNow1 = 10, perfNow2 = 10\<rparr>,
        \<lparr>wsOpen = True, inputBuffer = [1, 1, 1], perfNow1 = 520, perfNow2 = 520\<rparr>]" True]
  by (simp add: eval_tick_silent eval_tick_loud stop_def default_callbacks)

section \<open>Properties of playback and session coordination\<close>

subsection \<open>Playback scheduler\<close>

lemma length_int16_pairs: "length (int16_pairs b) = length b div 2"
  by (induction b rule: int16_pairs.induct) simp_all

lemma scheduleBuffer_open:
  assumes "audioContextRef s"
  shows "snd (scheduleBuffer s t b) = [Scheduled (nextNode s) (max (playHeadRef s) t) (duration b)]"
    and "playHeadRef (fst (scheduleBuffer s t b)) = max (playHeadRef s) t + duration b"
    and "audioContextRef (fst (scheduleBuffer s t b))"
  using assms by (simp_all add: scheduleBuffer_def getAudioContext_def Let_def max_def)

lemma getAudioContext_fields:
  "audioContextRef (getAudioContext s t)"
  "playHeadRef (getAudioContext s t) = (if audioContextRef s then playHeadRef s else t)"
  "nextNode (getAudioContext s t) = nextNode s"
  by (simp_all add: getAudioContext_def)

lemma binary_valid:
  assumes "even (length b)" "b \<noteq> []"
  shows "processBinaryChunk s t b =
           scheduleBuffer (getAudioContext s t) t
             \<lparr>channelData = map int16_to_float (int16_pairs b), bufferRate = 16000\<rparr>"
proof -
  have "length b \<noteq> 0" using assms(2) by simp
  with assms(1) have "length b div 2 \<noteq> 0" by presburger
  then have "int16_pairs b \<noteq> []" using length_int16_pairs [of b] by auto
  with assms(1) show ?thesis
    by (simp add: processBinaryChunk_def Int16Array_of_def createBuffer_def Let_def)
qed

lemma binary_invalid:
  assumes "\<not> (even (length b) \<and> b \<noteq> [])"
  shows "schedule_of (snd (processBinaryChunk s t b)) = []"
    and "audioContextRef s \<longrightarrow> audioContextRef (fst (processBinaryChunk s t b))
          \<and> playHeadRef (fst (processBinaryChunk s t b)) = playHeadRef s"
  using assms
  by (auto simp: processBinaryChunk_def Int16Array_of_def createBuffer_def Let_def
      getAudioContext_def)

lemma binary_step_valid:
  fixes s t b
  assumes "even (length b)" "b \<noteq> []"
  defines "start \<equiv> max (if audioContextRef s then playHeadRef s else t) t"
  defines "d \<equiv> real (length b div 2) / 16000"
  shows "snd (page_step s (WsBinary b t)) = [Scheduled (nextNode s) start d]"
    and "playHeadRef (fst (page_step s (WsBinary b t))) = start + d"
    and "audioContextRef (fst (page_step s (WsBinary b t)))"
    and "0 < d"
proof -
  let ?s0 = "s\<lparr>ttsActiveRef := True, ui_isSpeaking := True, callPhase := speaking\<rparr>"
  let ?buf = "\<lparr>channelData = map int16_to_float (int16_pairs b), bufferRate = 16000\<rparr>"
  have step: "page_step s (WsBinary b t) = scheduleBuffer (getAudioContext ?s0 t) t ?buf"
    by (simp add: binary_valid [OF assms(1,2)])
  have dur: "duration ?buf = d"
    by (simp add: duration_def d_def length_int16_pairs)
  have opened: "audioContextRef (getAudioContext ?s0 t)" by (rule getAudioContext_fields)
  show "snd (page_step s (WsBinary b t)) = [Scheduled (nextNode s) start d]"
    unfolding step scheduleBuffer_open(1) [OF opened] dur
    by (simp add: getAudioContext_fields start_def)
  show "playHeadRef (fst (page_step s (WsBinary b t))) = start + d"
    unfolding step scheduleBuffer_open(2) [OF opened] dur
    by (simp add: getAudioContext_fields start_def)
  show "audioContextRef (fst (page_step s (WsBinary b t)))"
    unfolding step by (rule scheduleBuffer_open(3) [OF opened])
  have "length b \<noteq> 0" using assms(2) by simp
  with assms(1) have "0 < length b div 2" by presburger
  then show "0 < d" by (simp add: d_def)
qed

lemma binary_step_cases:
  "(schedule_of (snd (page_step s (WsBinary b t))) = []
      \<and> (audioContextRef s \<longrightarrow> audioContextRef (fst (page_step s (WsBinary b t)))
            \<and> playHeadRef (fst (page_step s (WsBinary b t))) = playHeadRef s))
   \<or> (\<exists>t0 d0. schedule_of (snd (page_step s (WsBinary b t))) = [(t0, d0)] \<and> 0 < d0
         \<and> audioContextRef (fst (page_step s (WsBinary b t)))
         \<and> playHeadRef (fst (page_step s (WsBinary b t))) = t0 + d0
         \<and> (audioContextRef s \<longrightarrow> playHeadRef s \<le> t0))"
proof (cases "even (length b) \<and> b \<noteq> []")
  case True
  then have v: "even (length b)" "b \<noteq> []" by simp_all
  let ?t0 = "max (if audioContextRef s then playHeadRef s else t) t"
  let ?d0 = "real (length b div 2) / 16000"
  note f = binary_step_valid(1,2,3) [OF v, of s t] binary_step_valid(4) [OF v]
  have "schedule_of (snd (page_step s (WsBinary b t))) = [(?t0, ?d0)] \<and> 0 < ?d0
         \<and> audioContextRef (fst (page_step s (WsBinary b t)))
         \<and> playHeadRef (fst (page_step s (WsBinary b t))) = ?t0 + ?d0
         \<and> (audioContextRef s \<longrightarrow> playHeadRef s \<le> ?t0)"
    unfolding f(1) f(2) using f(3) f(4) by simp
  then show ?thesis by blast
next
  case False
  show ?thesis
    using binary_invalid [OF False, of "s\<lparr>ttsActiveRef := True, ui_isSpeaking := True, callPhase := speaking\<rparr>" t]
    by simp
qed

lemma schedule_of_append: "schedule_of (a @ b) = schedule_of a @ schedule_of b"
  by (induction a rule: schedule_of.induct) simp_all

lemma chunks_schedule:
  fixes s chunks
  defines "r \<equiv> page_run s (map (\<lambda>(b, t). WsBinary b t) chunks)"
  shows "sorted_wrt ends_before (schedule_of (snd r))
       \<and> (\<forall>x \<in> set (schedule_of (snd r)). 0 < snd x \<and> (audioContextRef s \<longrightarrow> playHeadRef s \<le> fst x))
       \<and> (schedule_of (snd r) = [] \<and> audioContextRef s \<longrightarrow>
             audioContextRef (fst r) \<and> playHeadRef (fst r) = playHeadRef s)
       \<and> (schedule_of (snd r) \<noteq> [] \<longrightarrow>
             playHeadRef (fst r) = fst (last (schedule_of (snd r))) + snd (last (schedule_of (snd r)))
           \<and> sum_list (map snd (schedule_of (snd r)))
               \<le> playHeadRef (fst r) - fst (hd (schedule_of (snd r))))"
  unfolding r_def
proof (induction chunks arbitrary: s)
  case Nil
  then show ?case by simp
next
  case (Cons c chunks)
  obtain b t where c: "c = (b, t)" by (cases c)
  define s1 where "s1 = fst (page_step s (WsBinary b t))"
  define o1 where "o1 = schedule_of (snd (page_step s (WsBinary b t)))"
  define r2 where "r2 = page_run s1 (map (\<lambda>(b, t). WsBinary b t) chunks)"
  define o2 where "o2 = schedule_of (snd r2)"
  have run: "schedule_of (snd (page_run s (map (\<lambda>(b, t). WsBinary b t) (c # chunks)))) = o1 @ o2"
    "fst (page_run s (map (\<lambda>(b, t). WsBinary b t) (c # chunks))) = fst r2"
    by (simp_all add: c split_beta schedule_of_append o1_def o2_def r2_def s1_def)
  note IH = Cons.IH [of s1, folded r2_def, folded o2_def]
  from IH have srt2: "sorted_wrt ends_before o2"
    and pos2: "\<forall>x \<in> set o2. 0 < snd x \<and> (audioContextRef s1 \<longrightarrow> playHeadRef s1 \<le> fst x)"
    and keep2: "o2 = [] \<and> audioContextRef s1 \<longrightarrow>
                  audioContextRef (fst r2) \<and> playHeadRef (fst r2) = playHeadRef s1"
    and last2: "o2 \<noteq> [] \<longrightarrow> playHeadRef (fst r2) = fst (last o2) + snd (last o2)
                  \<and> sum_list (map snd o2) \<le> playHeadRef (fst r2) - fst (hd o2)"
    by blast+
  from binary_step_cases [of s b t, folded s1_def o1_def]
  consider (none) "o1 = []" "audioContextRef s \<longrightarrow> audioContextRef s1 \<and> playHeadRef s1 = playHeadRef s"
    | (one) t0 d0 where "o1 = [(t0, d0)]" "0 < d0" "audioContextRef s1"
        "playHeadRef s1 = t0 + d0" "audioContextRef s \<longrightarrow> playHeadRef s \<le> t0"
    by blast
  then show ?case
  proof cases
    case none
    have pos: "\<forall>x \<in> set o2. 0 < snd x \<and> (audioContextRef s \<longrightarrow> playHeadRef s \<le> fst x)"
      using pos2 none(2) by auto
    have keep: "o2 = [] \<and> audioContextRef s \<longrightarrow>
                  audioContextRef (fst r2) \<and> playHeadRef (fst r2) = playHeadRef s"
      using keep2 none(2) by auto
    show ?thesis unfolding run none(1) append_Nil
      by (intro conjI) (fact srt2 pos keep last2)+
  next
    case one
    have later: "\<forall>x \<in> set o2. t0 + d0 \<le> fst x"
      using pos2 one(3,4) by auto
    have srt: "sorted_wrt ends_before ((t0, d0) # o2)"
      using srt2 later by (simp add: ends_before_def)
    have pos: "\<forall>x \<in> set ((t0, d0) # o2).
          0 < snd x \<and> (audioContextRef s \<longrightarrow> playHeadRef s \<le> fst x)"
    proof
      fix x assume "x \<in> set ((t0, d0) # o2)"
      then consider "x = (t0, d0)" | "x \<in> set o2" by auto
      then show "0 < snd x \<and> (audioContextRef s \<longrightarrow> playHeadRef s \<le> fst x)"
      proof cases
        case 1
        then show ?thesis using one(2,5) by simp
      next
        case 2
        with pos2 later have "0 < snd x" "t0 + d0 \<le> fst x" by auto
        then show ?thesis using one(2,5) by auto
      qed
    qed
    have fin: "playHeadRef (fst r2) = fst (last ((t0, d0) # o2)) + snd (last ((t0, d0) # o2))
           \<and> sum_list (map snd ((t0, d0) # o2)) \<le> playHeadRef (fst r2) - fst (hd ((t0, d0) # o2))"
    proof (cases "o2 = []")
      case True
      with keep2 one(3,4) show ?thesis by simp
    next
      case False
      then have "hd o2 \<in> set o2" by simp
      with later have le: "t0 + d0 \<le> fst (hd o2)" by blast
      from last2 False have ph: "playHeadRef (fst r2) = fst (last o2) + snd (last o2)"
        and sm: "sum_list (map snd o2) \<le> playHeadRef (fst r2) - fst (hd o2)"
        by simp_all
      from le sm have "d0 + sum_list (map snd o2) \<le> playHeadRef (fst r2) - t0"
        by linarith
      with ph False show ?thesis by simp
    qed
    show ?thesis unfolding run one(1) append_Cons append_Nil
      using srt pos fin by simp
  qed
qed

text \<open>
  C3: a well-formed chunk (an even, non-zero number of bytes) is scheduled to start at the
  maximum of the play head and the context's current time (a new context starts its play
  head at that time), and the play head then stands exactly one buffer duration after that
  start. For every sequence of inbound chunks, whatever their arrival times, the scheduled
  buffers never overlap (each ends before every later one starts), each has a positive
  duration, the play head ends where the last buffer ends, and the span from the first
  start to the last end is at least the sum of the durations.
\<close>

text \<open>
  C3: a well-formed chunk (an even, non-zero number of bytes) is scheduled to start at the
  maximum of the play head and the context's current time (a new context starts its play
  head at that time), and the play head then stands exactly one buffer duration after that
  start. For every sequence of inbound chunks, whatever their arrival times, the scheduled
  buffers never overlap (each ends before every later one starts), each has a positive
  duration, the play head ends where the last buffer ends, and the span from the first
  start to the last end is at least the sum of the durations.
\<close>

theorem playback_schedule:
  fixes s chunks b t
  defines "r \<equiv> page_run s (map (\<lambda>(b, t). WsBinary b t) chunks)"
  defines "sched \<equiv> schedule_of (snd r)"
  defines "start \<equiv> max (if audioContextRef s then playHeadRef s else t) t"
  defines "d \<equiv> real (length b div 2) / 16000"
  shows "(even (length b) \<and> b \<noteq> [] \<longrightarrow>
            snd (page_step s (WsBinary b t)) = [Scheduled (nextNode s) start d]
          \<and> playHeadRef (fst (page_step s (WsBinary b t))) = start + d)
       \<and> sorted_wrt ends_before sched
       \<and> (\<forall>x \<in> set sched. 0 < snd x)
       \<and> (sched \<noteq> [] \<longrightarrow>
            playHeadRef (fst r) = fst (last sched) + snd (last sched)
          \<and> sum_list (map snd sched) \<le> fst (last sched) + snd (last sched) - fst (hd sched))"
proof -
  have 1: "even (length b) \<and> b \<noteq> [] \<longrightarrow>
            snd (page_step s (WsBinary b t)) = [Scheduled (nextNode s) start d]
          \<and> playHeadRef (fst (page_step s (WsBinary b t))) = start + d"
    using binary_step_valid(1,2) [of b s t] unfolding start_def d_def by blast
  note c = chunks_schedule [of s chunks, folded r_def, folded sched_def]
  from c have 2: "sorted_wrt ends_before sched" by blast
  from c have 3: "\<forall>x \<in> set sched. 0 < snd x" by blast
  from c have "sched \<noteq> [] \<longrightarrow>
            playHeadRef (fst r) = fst (last sched) + snd (last sched)
          \<and> sum_list (map snd sched) \<le> playHeadRef (fst r) - fst (hd sched)"
    by blast
  then have 4: "sched \<noteq> [] \<longrightarrow>
            playHeadRef (fst r) = fst (last sched) + snd (last sched)
          \<and> sum_list (map snd sched) \<le> fst (last sched) + snd (last sched) - fst (hd sched)"
    by auto
  show ?thesis by (intro conjI) (fact 1 2 3 4)+
qed

lemma eval_views:
  "Int16Array_of [0, 0, 0, 0] = Inr [0, 0]" "Int16Array_of [0, 0] = Inr [0]"
  "Int16Array_of [0] = Inl RangeError" "Int16Array_of [] = Inr []"
  by (simp_all add: Int16Array_of_def)

lemma eval_chunk_step:
  "processBinaryChunk s t [0, 0] =
     scheduleBuffer (getAudioContext s t) t \<lparr>channelData = [0], bufferRate = 16000\<rparr>"
  "processBinaryChunk s t [0] = (s, [Thrown RangeError])"
  by (simp_all add: processBinaryChunk_def eval_views createBuffer_def Let_def int16_to_float_def)

lemma eval_chunks:
  "snd (page_run page_init [WsBinary [0, 0] 0, WsBinary [0] 1, WsBinary [0, 0] 5])
     = [Scheduled 0 0 (1 / 16000), Thrown RangeError, Scheduled 1 5 (1 / 16000)]"
  by (simp add: eval_chunk_step page_init_def scheduleBuffer_def getAudioContext_def
      duration_def Let_def)

theorem playback_schedule_witness:
  "schedule_of (snd (page_run page_init
      (map (\<lambda>(b, t). WsBinary b t) [([0, 0], 0), ([0], 1), ([0, 0], 5)])))
     = [(0, 1 / 16000), (5, 1 / 16000)]
   \<and> sorted_wrt ends_before [(0, 1 / 16000), (5, 1 / 16000)]
   \<and> even (length [0 :: 8 word, 0])
   \<and> snd (page_step page_init (WsBinary [0, 0] 7)) = [Scheduled 0 7 (1 / 16000)]"
proof -
  have m: "map (\<lambda>(b, t). WsBinary b t) [([0, 0], 0), ([0], 1), ([0, 0], 5)]
      = [WsBinary [0, 0] 0, WsBinary [0] 1, WsBinary [0, 0] 5]"
    by simp
  have n: "nextNode page_init = 0" "\<not> audioContextRef page_init" by (simp_all add: page_init_def)
  show ?thesis
    using playback_schedule [of "[0, 0]" page_init 7 "[([0, 0], 0), ([0], 1), ([0, 0], 5)]"]
    unfolding m eval_chunks
    by (simp add: n ends_before_def)
qed

subsection \<open>Idle report after \<^verbatim>\<open>tts_end\<close>\<close>

lemma eval_two_utterances:
  "page_run page_init
      [WsText tts_start, WsBinary [0, 0] 0, WsText tts_end, WsBinary [0, 0] 0, WsText tts_end]
   = (\<lparr> ui_isSpeaking = True, isWsConnected = False, callPhase = speaking,
         audioContextRef = True, playHeadRef = 1 / 8000, sourceNodesRef = [0, 1],
         sourceEndPromisesRef = [0, 1], ttsActiveRef = True,
         nextNode = 2, settled = [], pendingAll = [[0], [0, 1]] \<rparr>,
      [Scheduled 0 0 (1 / 16000), Scheduled 1 (1 / 16000) (1 / 16000)])"
  by (simp add: eval_chunk_step page_init_def scheduleBuffer_def getAudioContext_def
      duration_def Let_def on_tts_end_def all_settled_def)

text \<open>
  C4 fails on the code. Two utterances arrive back to back: \<^verbatim>\<open>tts_start\<close>, a chunk,
  \<^verbatim>\<open>tts_end\<close>, a second chunk, a second \<^verbatim>\<open>tts_end\<close>, all before the first buffer has ended.
  When the second \<^verbatim>\<open>tts_end\<close> arrives, buffers 0 and 1 are scheduled and neither has
  completed. The continuation registered by the first \<^verbatim>\<open>tts_end\<close> is still waiting for
  buffer 0 alone, and nothing cancels it: when buffer 0 ends, the flag is cleared and the
  phase becomes listening while buffer 1 is still in flight.
\<close>

theorem tts_end_idle_before_last_buffer:
  "(let before = fst (page_run page_init
          [WsText tts_start, WsBinary [0, 0] 0, WsText tts_end, WsBinary [0, 0] 0, WsText tts_end]);
        after = fst (page_step before (SourceEnded 0))
    in sourceEndPromisesRef before = [0, 1] \<and> sourceNodesRef before = [0, 1]
       \<and> settled before = [] \<and> pendingAll before = [[0], [0, 1]]
       \<and> ttsActiveRef before \<and> ui_isSpeaking before \<and> callPhase before = speaking
       \<and> snd (page_step before (SourceEnded 0)) = [Completed 0, IdleReported [0]]
       \<and> \<not> ttsActiveRef after \<and> \<not> ui_isSpeaking after \<and> callPhase after = listening
       \<and> sourceNodesRef after = [1] \<and> settled after = [0] \<and> pendingAll after = [[0, 1]])"
  unfolding eval_two_utterances
  by (simp add: on_ended_def all_settled_def report_idle_def Let_def)

subsection \<open>Echo guard\<close>

text \<open>
  C5: while the TTS-active flag is set, the callbacks of the capture pipeline for
  \<^verbatim>\<open>speech_start\<close> and \<^verbatim>\<open>speech_end\<close> change nothing: after any number of them the state is
  the same, so the phase is still speaking and the flag is still set.
\<close>

theorem echo_guard:
  assumes "ttsActiveRef s" "set evs \<subseteq> {MicSpeechStart, MicSpeechEnd}"
  shows "page_run s evs = (s, [])
       \<and> callPhase (fst (page_run s evs)) = callPhase s
       \<and> ttsActiveRef (fst (page_run s evs))"
proof -
  have "page_run s evs = (s, [])" using assms
  proof (induction evs)
    case Nil
    then show ?case by simp
  next
    case (Cons e evs)
    then have "e = MicSpeechStart \<or> e = MicSpeechEnd" by simp
    then have "page_step s e = (s, [])" using Cons.prems(1) by auto
    with Cons show ?case by simp
  qed
  with assms(1) show ?thesis by simp
qed

theorem echo_guard_witness:
  "ttsActiveRef (fst (page_step page_init (WsText tts_start)))
   \<and> callPhase (fst (page_step page_init (WsText tts_start))) = speaking
   \<and> callPhase (fst (page_run (fst (page_step page_init (WsText tts_start)))
        [MicSpeechStart, MicSpeechEnd, MicSpeechStart])) = speaking
   \<and> callPhase (fst (page_run page_init [MicSpeechStart])) = listening"
  using echo_guard [of "fst (page_step page_init (WsText tts_start))"
      "[MicSpeechStart, MicSpeechEnd, MicSpeechStart]"]
  by (simp add: page_init_def)

end
